theory Spec2Isabelle
  imports Complex_Main "HOL-Library.Word"
begin

unbundle bit_operations_syntax

section \<open>Data model\<close>

text \<open>
  The Bloom filter of \<^verbatim>\<open>bloomfilter.go\<close>, for a 64-bit platform: Go's \<^verbatim>\<open>uint\<close> and
  \<^verbatim>\<open>uint64\<close> are 64-bit words, \<^verbatim>\<open>int\<close> is a 64-bit two's-complement word whose
  arithmetic wraps, \<^verbatim>\<open>byte\<close> is an 8-bit word. The struct's mutex is left out: every
  method holds it from entry to exit, so a run of the program is a sequence of whole
  method calls, and that sequence is what is modelled here.
\<close>

type_synonym byte = "8 word"
type_synonym uint = "64 word"
type_synonym uint64 = "64 word"
type_synonym go_int = "64 word"

record BloomFilter =
  m :: uint
  k :: uint
  bits :: "bool list"
  items :: go_int

text \<open>
  The run-time panics the methods can raise, as values. \<open>InvalidParameters\<close> is the
  construction error the specification names; no function of the source raises it.
\<close>

datatype error =
    InvalidParameters
  | LenOutOfRange
  | SliceBoundsOutOfRange
  | IndexOutOfRange
  | DivideByZero

text \<open>
  \<^verbatim>\<open>make([]T, n)\<close> for an unsigned \<open>n\<close> and an element type of \<open>elemsize\<close> bytes: a slice
  of \<open>n\<close> zero values. The run-time system panics (\<^verbatim>\<open>makeslice: len out of range\<close>) when
  \<open>n\<close> is not a value of \<^verbatim>\<open>int\<close>, that is \<open>2^63\<close> or more, and when \<open>n\<close> elements take more
  than \<open>maxAlloc\<close> bytes, the largest allocation it admits: \<open>2^48\<close> on 64-bit Linux
  (amd64). A \<^verbatim>\<open>bool\<close> takes one byte and a \<^verbatim>\<open>uint\<close> eight. Below that limit the allocation
  is taken to succeed: the machine running out of memory is a fatal error of the
  process, not a panic, and is not modelled.
\<close>

definition maxAlloc :: nat where
  "maxAlloc = 2 ^ 48"

definition make_slice :: "nat \<Rightarrow> uint \<Rightarrow> 'a \<Rightarrow> error + 'a list" where
  "make_slice elemsize n zero =
     (if unat n < 2 ^ 63 \<and> unat n * elemsize \<le> maxAlloc
      then Inr (replicate (unat n) zero)
      else Inl LenOutOfRange)"

section \<open>Construction\<close>

text \<open>
  \<^verbatim>\<open>NewBloomFilter\<close> computes \<open>m\<close> and \<open>k\<close> in float64 arithmetic (\<^verbatim>\<open>math.Log\<close>,
  \<^verbatim>\<open>math.Pow\<close>, \<^verbatim>\<open>math.Ceil\<close>, and the conversion to \<^verbatim>\<open>uint\<close>). IEEE-754 arithmetic is
  outside this development, so the two expressions are parameters:
  \<open>m_of expectedItems falsePositiveRate\<close> stands for the right-hand side of line 25 and
  \<open>k_of expectedItems m\<close> for that of line 26; \<open>'f\<close> is the type of float64 values.
  Everything proved below holds whatever the two expressions evaluate to. The function
  has no check of its arguments and no error result; the only way it fails is the
  panic of \<^verbatim>\<open>make\<close>.
\<close>

definition NewBloomFilter ::
  "(go_int \<Rightarrow> 'f \<Rightarrow> uint) \<Rightarrow> (go_int \<Rightarrow> uint \<Rightarrow> uint) \<Rightarrow> go_int \<Rightarrow> 'f \<Rightarrow> error + BloomFilter"
where
  "NewBloomFilter m_of k_of expectedItems falsePositiveRate =
     (let mm = m_of expectedItems falsePositiveRate;
          kk = k_of expectedItems mm
      in case make_slice 1 mm False of
           Inl e \<Rightarrow> Inl e
         | Inr bs \<Rightarrow> Inr \<lparr>m = mm, k = kk, bits = bs, items = 0\<rparr>)"

section \<open>Index derivation\<close>

text \<open>
  \<^verbatim>\<open>append(hash[:8], byte(i))\<close>. The slice expression \<^verbatim>\<open>hash[:8]\<close> panics when the
  buffer holds fewer than 8 bytes. It shares the buffer of \<open>hash\<close>, so when the buffer has
  room for a ninth byte \<^verbatim>\<open>append\<close> writes the new byte into \<open>hash[8]\<close> in place; otherwise
  it copies. The result is the buffer as the call leaves it, and the 9-byte slice.
  (The capacity of the digest that \<^verbatim>\<open>Sum(nil)\<close> returns is taken to be its length.)
\<close>

definition append_prefix8 :: "byte list \<Rightarrow> byte \<Rightarrow> error + (byte list \<times> byte list)" where
  "append_prefix8 hash b =
     (if length hash < 8 then Inl SliceBoundsOutOfRange
      else if 8 < length hash then Inr (hash[8 := b], take 8 (hash[8 := b]) @ [hash[8 := b] ! 8])
      else Inr (hash, take 8 hash @ [b]))"

text \<open>
  \<^verbatim>\<open>binary.BigEndian.Uint64\<close>: the first eight bytes, most significant first, after
  the bounds check \<^verbatim>\<open>_ = b[7]\<close>.
\<close>

definition be64 :: "byte list \<Rightarrow> uint64" where
  "be64 b =
     ucast (b ! 7) OR push_bit 8 (ucast (b ! 6)) OR push_bit 16 (ucast (b ! 5))
       OR push_bit 24 (ucast (b ! 4)) OR push_bit 32 (ucast (b ! 3))
       OR push_bit 40 (ucast (b ! 2)) OR push_bit 48 (ucast (b ! 1))
       OR push_bit 56 (ucast (b ! 0))"

definition BigEndian_Uint64 :: "byte list \<Rightarrow> error + uint64" where
  "BigEndian_Uint64 b = (if length b < 8 then Inl IndexOutOfRange else Inr (be64 b))"

text \<open>
  The loop of \<^verbatim>\<open>getHashValues\<close>, from slot \<open>i\<close> on. Its state is the digest buffer (which
  \<^verbatim>\<open>append\<close> may write to) and the result slice. \<^verbatim>\<open>value % uint64(bf.m)\<close> panics when
  \<open>m\<close> is zero.
\<close>

function getHashValues_loop ::
  "uint \<Rightarrow> uint \<Rightarrow> byte list \<Rightarrow> uint \<Rightarrow> uint list \<Rightarrow> error + uint list"
where
  "getHashValues_loop bm bk hash i result =
     (if i < bk then
        (case append_prefix8 hash (ucast i) of
           Inl e \<Rightarrow> Inl e
         | Inr (hash', b) \<Rightarrow>
             (case BigEndian_Uint64 b of
                Inl e \<Rightarrow> Inl e
              | Inr v \<Rightarrow>
                  if bm = 0 then Inl DivideByZero
                  else if unat i < length result
                    then getHashValues_loop bm bk hash' (i + 1) (result[unat i := v mod bm])
                    else Inl IndexOutOfRange))
      else Inr result)"
  by pat_completeness auto
termination
  apply (relation "measure (\<lambda>(bm, bk, hash, i, result). unat bk - unat i)")
   apply simp
  apply simp
  apply unat_arith
  done

declare getHashValues_loop.simps [simp del]

text \<open>
  \<^verbatim>\<open>getHashValues\<close>. The digest function of \<^verbatim>\<open>crypto/sha256\<close> is a parameter,
  \<open>sum256\<close>: the bytes of \<^verbatim>\<open>h.Sum(nil)\<close> after \<^verbatim>\<open>h.Write([]byte(item))\<close>.
\<close>

definition getHashValues :: "(string \<Rightarrow> byte list) \<Rightarrow> BloomFilter \<Rightarrow> string \<Rightarrow> error + uint list" where
  "getHashValues sum256 bf item =
     (let hash = sum256 item
      in case make_slice 8 (k bf) 0 of
           Inl e \<Rightarrow> Inl e
         | Inr result \<Rightarrow> getHashValues_loop (m bf) (k bf) hash 0 result)"

section \<open>The methods\<close>

text \<open>
  The loop of \<^verbatim>\<open>Add\<close>: \<^verbatim>\<open>bf.bits[hash] = true\<close> for each hash in turn. An index past
  the end of the slice panics.
\<close>

fun set_bits :: "bool list \<Rightarrow> uint list \<Rightarrow> error + bool list" where
  "set_bits bs [] = Inr bs"
| "set_bits bs (h # hs) =
     (if unat h < length bs then set_bits (bs[unat h := True]) hs else Inl IndexOutOfRange)"

definition Add :: "(string \<Rightarrow> byte list) \<Rightarrow> BloomFilter \<Rightarrow> string \<Rightarrow> error + BloomFilter" where
  "Add sum256 bf item =
     (case getHashValues sum256 bf item of
        Inl e \<Rightarrow> Inl e
      | Inr hashes \<Rightarrow>
          (case set_bits (bits bf) hashes of
             Inl e \<Rightarrow> Inl e
           | Inr bs \<Rightarrow> Inr (bf\<lparr>bits := bs, items := items bf + 1\<rparr>)))"

text \<open>The loop of \<^verbatim>\<open>Contains\<close>: false at the first hash whose bit is not set.\<close>

fun all_set :: "bool list \<Rightarrow> uint list \<Rightarrow> error + bool" where
  "all_set bs [] = Inr True"
| "all_set bs (h # hs) =
     (if unat h < length bs
      then (if \<not> bs ! unat h then Inr False else all_set bs hs)
      else Inl IndexOutOfRange)"

definition Contains :: "(string \<Rightarrow> byte list) \<Rightarrow> BloomFilter \<Rightarrow> string \<Rightarrow> error + bool" where
  "Contains sum256 bf item =
     (case getHashValues sum256 bf item of
        Inl e \<Rightarrow> Inl e
      | Inr hashes \<Rightarrow> all_set (bits bf) hashes)"

text \<open>
  \<^verbatim>\<open>Stats\<close>. The counting loop increments an \<^verbatim>\<open>int\<close> for each set bit. The map the
  method returns has two more entries, \<^verbatim>\<open>fillRatio\<close> and \<^verbatim>\<open>falsePositiveRate\<close>, which are
  float64 values computed from \<open>setBits\<close>, \<open>m\<close> and \<open>k\<close> by a float64 division and
  \<^verbatim>\<open>math.Pow\<close>; they are not part of this record.
\<close>

record stats =
  size_st :: uint
  hashFunctions :: uint
  itemsAdded :: go_int
  bitsSet :: go_int

fun count_set :: "bool list \<Rightarrow> go_int \<Rightarrow> go_int" where
  "count_set [] setBits = setBits"
| "count_set (b # rest) setBits = count_set rest (if b then setBits + 1 else setBits)"

definition Stats :: "BloomFilter \<Rightarrow> stats" where
  "Stats bf =
     (let setBits = count_set (bits bf) 0
      in \<lparr>size_st = m bf, hashFunctions = k bf, itemsAdded = items bf, bitsSet = setBits\<rparr>)"

definition Reset :: "BloomFilter \<Rightarrow> error + BloomFilter" where
  "Reset bf =
     (case make_slice 1 (m bf) False of
        Inl e \<Rightarrow> Inl e
      | Inr bs \<Rightarrow> Inr (bf\<lparr>bits := bs, items := 0\<rparr>))"

section \<open>Sequences of calls\<close>

text \<open>
  The four operations the program exposes, and a run of them on one filter. A call
  that panics ends the run. \<^verbatim>\<open>Contains\<close> and \<^verbatim>\<open>Stats\<close> leave the filter as it is.
  (A call of \<^verbatim>\<open>Add\<close> that panics has not written to the filter yet: its indices are
  all the same, so the first assignment to \<^verbatim>\<open>bf.bits\<close> is the one that fails.)
\<close>

datatype operation = OpAdd string | OpContains string | OpStats | OpReset

fun step :: "(string \<Rightarrow> byte list) \<Rightarrow> operation \<Rightarrow> BloomFilter \<Rightarrow> error + BloomFilter" where
  "step sum256 (OpAdd item) bf = Add sum256 bf item"
| "step sum256 (OpContains item) bf =
     (case Contains sum256 bf item of Inl e \<Rightarrow> Inl e | Inr _ \<Rightarrow> Inr bf)"
| "step sum256 OpStats bf = (let snapshot = Stats bf in Inr bf)"
| "step sum256 OpReset bf = Reset bf"

fun run :: "(string \<Rightarrow> byte list) \<Rightarrow> operation list \<Rightarrow> BloomFilter \<Rightarrow> error + BloomFilter" where
  "run sum256 [] bf = Inr bf"
| "run sum256 (op # ops) bf =
     (case step sum256 op bf of Inl e \<Rightarrow> Inl e | Inr bf' \<Rightarrow> run sum256 ops bf')"

text \<open>Whether an operation is a call of \<^verbatim>\<open>Add\<close>.\<close>

fun is_add :: "operation \<Rightarrow> bool" where
  "is_add (OpAdd item) = True"
| "is_add _ = False"

section \<open>Sample data\<close>

text \<open>
  The SHA-256 digests of the items \<^verbatim>\<open>alpha\<close> and \<^verbatim>\<open>beta\<close>, as \<^verbatim>\<open>crypto/sha256\<close> computes them,
  for evaluating the definitions on concrete calls. \<open>sum256_sample\<close> stands for the
  digest function on these two items only.
\<close>

definition sha256_alpha :: "byte list" where
  "sha256_alpha =
     [142, 211, 246, 173, 104, 91, 149, 158, 173, 112, 34, 81, 142, 26, 247, 108,
      216, 22, 248, 232, 236, 124, 205, 218, 30, 212, 1, 142, 143, 34, 35, 248]"

definition sha256_beta :: "byte list" where
  "sha256_beta =
     [244, 78, 100, 231, 95, 57, 72, 233, 247, 63, 141, 250, 148, 114, 28, 76,
      232, 203, 180, 242, 101, 196, 121, 12, 112, 43, 45, 65, 207, 191, 39, 83]"

definition sum256_sample :: "string \<Rightarrow> byte list" where
  "sum256_sample item =
     (if item = ''alpha'' then sha256_alpha
      else if item = ''beta'' then sha256_beta
      else replicate 32 0)"

text \<open>
  The filter that \<^verbatim>\<open>NewBloomFilter(1, 0.5)\<close> returns: \<open>m = 2\<close> and \<open>k = 2\<close>.
\<close>

definition small_filter :: BloomFilter where
  "small_filter = \<lparr>m = 2, k = 2, bits = [False, False], items = 0\<rparr>"

text \<open>
  The program's one filter, \<^verbatim>\<open>var globalBloomFilter = NewBloomFilter(10000, 0.01)\<close>, as
  it is when the program starts: the float64 formulas give \<open>m = 95851\<close> and \<open>k = 7\<close>.
\<close>

definition globalBloomFilter :: BloomFilter where
  "globalBloomFilter = \<lparr>m = 95851, k = 7, bits = replicate 95851 False, items = 0\<rparr>"

text \<open>
  Follows the specification's words (section 4.3), for comparison with
  \<open>getHashValues\<close>: the digest is split into its first and second halves, read as
  unsigned big-endian integers \<open>h1\<close> and \<open>h2\<close>, and slot \<open>i\<close> gets \<open>(h1 + i * h2) mod m\<close>.
\<close>

definition be_nat :: "byte list \<Rightarrow> nat" where
  "be_nat bs = foldl (\<lambda>acc b. acc * 256 + unat b) 0 bs"

definition spec_two_hash_indices :: "byte list \<Rightarrow> nat \<Rightarrow> nat \<Rightarrow> nat list" where
  "spec_two_hash_indices digest kk mm =
     (let h1 = be_nat (take 16 digest); h2 = be_nat (drop 16 digest)
      in map (\<lambda>i. (h1 + i * h2) mod mm) [0..<kk])"

section \<open>Facts about the index derivation\<close>

lemma make_slice_Inr:
  "make_slice sz n z = Inr xs \<Longrightarrow> xs = replicate (unat n) z \<and> unat n * sz \<le> maxAlloc"
  by (auto simp: make_slice_def split: if_splits)

lemma make_slice_eq:
  "0 < sz \<Longrightarrow>
     make_slice sz n z =
       (if unat n * sz \<le> maxAlloc then Inr (replicate (unat n) z) else Inl LenOutOfRange)"
proof -
  assume "0 < sz"
  then have le: "unat n \<le> unat n * sz" by simp
  have "unat n < 2 ^ 63" if "unat n * sz \<le> maxAlloc"
  proof -
    from le that have "unat n \<le> maxAlloc" by (rule le_trans)
    then show ?thesis by (simp add: maxAlloc_def)
  qed
  then show ?thesis
    by (auto simp: make_slice_def)
qed

lemma append_prefix8_ok:
  assumes "8 \<le> length hash"
  shows "\<exists>hash'. append_prefix8 hash b = Inr (hash', take 8 hash @ [b])
           \<and> length hash' = length hash \<and> take 8 hash' = take 8 hash"
  using assms by (auto simp: append_prefix8_def)

lemma append_prefix8_short: "length hash < 8 \<Longrightarrow> append_prefix8 hash b = Inl SliceBoundsOutOfRange"
  by (simp add: append_prefix8_def)

lemma be64_prefix: "8 \<le> length hash \<Longrightarrow> be64 (take 8 hash @ [b]) = be64 (take 8 hash)"
  by (simp add: be64_def nth_append)

lemma be64_take: "8 \<le> length hash \<Longrightarrow> be64 (take 8 hash) = be64 hash"
  by (simp add: be64_def)

lemma Uint64_appended:
  "8 \<le> length hash \<Longrightarrow> BigEndian_Uint64 (take 8 hash @ [b]) = Inr (be64 (take 8 hash))"
  by (simp add: BigEndian_Uint64_def be64_prefix)

lemma unat_succ: "(i :: uint) < bk \<Longrightarrow> unat (i + 1) = Suc (unat i)"
  by unat_arith

lemma loop_ok:
  "8 \<le> length hash \<Longrightarrow> bm \<noteq> 0 \<Longrightarrow> length result = unat bk \<Longrightarrow> i \<le> bk \<Longrightarrow>
   getHashValues_loop bm bk hash i result =
     Inr (take (unat i) result @ replicate (unat bk - unat i) (be64 (take 8 hash) mod bm))"
proof (induction bm bk hash i result rule: getHashValues_loop.induct)
  case (1 bm bk hash i result)
  show ?case
  proof (cases "i < bk")
    case False
    with "1.prems" have "i = bk" by simp
    with "1.prems" show ?thesis by (simp add: getHashValues_loop.simps [of bm bk hash bk])
  next
    case True
    from "1.prems" obtain hash' where
      ap: "append_prefix8 hash (ucast i) = Inr (hash', take 8 hash @ [ucast i])"
      and len: "length hash' = length hash" and pre: "take 8 hash' = take 8 hash"
      using append_prefix8_ok by blast
    have u: "BigEndian_Uint64 (take 8 hash @ [ucast i]) = Inr (be64 (take 8 hash))"
      using "1.prems" by (simp add: Uint64_appended)
    have suc: "unat (i + 1) = Suc (unat i)" using True by (rule unat_succ)
    have lt: "unat i < unat bk" using True by (simp add: word_less_nat_alt)
    have le: "i + 1 \<le> bk" using True by unat_arith
    let ?v = "be64 (take 8 hash) mod bm"
    have IH: "getHashValues_loop bm bk hash' (i + 1) (result[unat i := ?v]) =
        Inr (take (unat (i + 1)) (result[unat i := ?v]) @
             replicate (unat bk - unat (i + 1)) (be64 (take 8 hash') mod bm))"
      using "1.IH" [OF True ap refl u] "1.prems" len lt le by simp
    have "take (Suc (unat i)) (result[unat i := ?v]) = take (unat i) result @ [?v]"
      using lt "1.prems" by (simp add: take_Suc_conv_app_nth)
    moreover have "replicate (unat bk - unat i) ?v = ?v # replicate (unat bk - Suc (unat i)) ?v"
      using lt by (cases "unat bk - unat i") (auto simp: Suc_diff_Suc)
    ultimately show ?thesis
      using True ap u "1.prems" lt IH suc pre
      by (simp add: getHashValues_loop.simps [of bm bk hash i])
  qed
qed

lemma loop_short:
  "length hash < 8 \<Longrightarrow> i < bk \<Longrightarrow> getHashValues_loop bm bk hash i result = Inl SliceBoundsOutOfRange"
  by (simp add: getHashValues_loop.simps [of bm bk hash i] append_prefix8_short)

lemma loop_zero:
  "8 \<le> length hash \<Longrightarrow> i < bk \<Longrightarrow> getHashValues_loop 0 bk hash i result = Inl DivideByZero"
  using append_prefix8_ok [of hash "ucast i"]
  by (auto simp: getHashValues_loop.simps [of 0 bk hash i] Uint64_appended)

lemma getHashValues_eq:
  "getHashValues sum256 bf item =
     (if \<not> unat (k bf) * 8 \<le> maxAlloc then Inl LenOutOfRange
      else if k bf = 0 then Inr []
      else if length (sum256 item) < 8 then Inl SliceBoundsOutOfRange
      else if m bf = 0 then Inl DivideByZero
      else Inr (replicate (unat (k bf)) (be64 (take 8 (sum256 item)) mod m bf)))"
proof -
  consider (big) "\<not> unat (k bf) * 8 \<le> maxAlloc"
    | (none) "unat (k bf) * 8 \<le> maxAlloc" "k bf = 0"
    | (short) "unat (k bf) * 8 \<le> maxAlloc" "k bf \<noteq> 0" "length (sum256 item) < 8"
    | (zero) "unat (k bf) * 8 \<le> maxAlloc" "k bf \<noteq> 0" "8 \<le> length (sum256 item)" "m bf = 0"
    | (ok) "unat (k bf) * 8 \<le> maxAlloc" "k bf \<noteq> 0" "8 \<le> length (sum256 item)" "m bf \<noteq> 0"
    by linarith
  then show ?thesis
  proof cases
    case big
    then show ?thesis by (simp add: getHashValues_def make_slice_eq)
  next
    case none
    then show ?thesis
      by (simp add: getHashValues_def make_slice_eq getHashValues_loop.simps [of _ 0])
  next
    case short
    then have "0 < k bf" by (simp add: word_greater_zero_iff)
    with short show ?thesis
      by (simp add: getHashValues_def make_slice_eq loop_short)
  next
    case zero
    then have "0 < k bf" by (simp add: word_greater_zero_iff)
    with zero show ?thesis
      by (simp add: getHashValues_def make_slice_eq loop_zero)
  next
    case ok
    then show ?thesis
      by (simp add: getHashValues_def make_slice_eq loop_ok)
  qed
qed

lemma getHashValues_in_range:
  assumes "getHashValues sum256 bf item = Inr hs"
  shows "length hs = unat (k bf) \<and> (\<forall>h\<in>set hs. h < m bf)"
proof (cases "k bf = 0")
  case True
  with assms show ?thesis
    by (auto simp: getHashValues_eq split: if_splits)
next
  case False
  with assms have "m bf \<noteq> 0"
    and "hs = replicate (unat (k bf)) (be64 (take 8 (sum256 item)) mod m bf)"
    by (auto simp: getHashValues_eq split: if_splits)
  then show ?thesis
    by (simp add: word_greater_zero_iff word_mod_less_divisor)
qed

lemma getHashValues_frame:
  "m bf' = m bf \<Longrightarrow> k bf' = k bf \<Longrightarrow> getHashValues sum256 bf' item = getHashValues sum256 bf item"
  by (simp add: getHashValues_eq)

section \<open>Facts about the methods\<close>

lemma set_bits_props:
  "set_bits bs hs = Inr bs' \<Longrightarrow>
     length bs' = length bs \<and> (\<forall>h\<in>set hs. unat h < length bs \<and> bs' ! unat h)
       \<and> (\<forall>i<length bs. bs ! i \<longrightarrow> bs' ! i)"
proof (induction hs arbitrary: bs)
  case Nil
  then show ?case by simp
next
  case (Cons h hs)
  from Cons.prems have lt: "unat h < length bs"
    and rest: "set_bits (bs[unat h := True]) hs = Inr bs'"
    by (auto split: if_splits)
  from Cons.IH [OF rest] have
    len: "length bs' = length bs"
    and hs: "\<forall>h'\<in>set hs. unat h' < length bs \<and> bs' ! unat h'"
    and mono: "\<forall>i<length bs. (bs[unat h := True]) ! i \<longrightarrow> bs' ! i"
    by simp_all
  from mono lt have "bs' ! unat h" by simp
  moreover have "\<forall>i<length bs. bs ! i \<longrightarrow> bs' ! i"
  proof (intro allI impI)
    fix i assume i: "i < length bs" "bs ! i"
    then have "(bs[unat h := True]) ! i"
      by (cases "i = unat h") simp_all
    with mono i show "bs' ! i" by simp
  qed
  ultimately show ?case using len hs lt by simp
qed

lemma set_bits_fixed:
  "\<forall>h\<in>set hs. unat h < length bs \<and> bs ! unat h \<Longrightarrow> set_bits bs hs = Inr bs"
proof (induction hs)
  case Nil
  then show ?case by simp
next
  case (Cons h hs)
  then have "bs[unat h := True] = bs"
    by (simp add: list_update_same_conv)
  with Cons show ?case by simp
qed

lemma all_set_True:
  "\<forall>h\<in>set hs. unat h < length bs \<and> bs ! unat h \<Longrightarrow> all_set bs hs = Inr True"
  by (induction hs) simp_all

lemma Add_Inr:
  "Add sum256 bf item = Inr bf' \<Longrightarrow>
     \<exists>hs. getHashValues sum256 bf item = Inr hs \<and> set_bits (bits bf) hs = Inr (bits bf')
       \<and> m bf' = m bf \<and> k bf' = k bf \<and> items bf' = items bf + 1"
  by (auto simp: Add_def split: sum.splits)

lemma Reset_Inr:
  "Reset bf = Inr bf' \<Longrightarrow>
     bits bf' = replicate (unat (m bf)) False \<and> items bf' = 0 \<and> m bf' = m bf \<and> k bf' = k bf"
  by (auto simp: Reset_def make_slice_def split: sum.splits if_splits)

lemma step_keeps:
  assumes "step sum256 op bf = Inr bf'" and "op \<noteq> OpReset"
  shows "m bf' = m bf \<and> k bf' = k bf \<and> length (bits bf') = length (bits bf)
           \<and> (\<forall>i<length (bits bf). bits bf ! i \<longrightarrow> bits bf' ! i)"
proof (cases op)
  case (OpAdd item)
  with assms have "Add sum256 bf item = Inr bf'" by simp
  from Add_Inr [OF this] obtain hs where sb: "set_bits (bits bf) hs = Inr (bits bf')"
    and mk: "m bf' = m bf" "k bf' = k bf"
    by blast
  from set_bits_props [OF sb] mk show ?thesis by simp
next
  case (OpContains item)
  with assms show ?thesis by (auto split: sum.splits)
next
  case OpStats
  with assms show ?thesis by simp
next
  case OpReset
  with assms show ?thesis by simp
qed

lemma run_keeps:
  "run sum256 ops bf = Inr bf' \<Longrightarrow> OpReset \<notin> set ops \<Longrightarrow>
     m bf' = m bf \<and> k bf' = k bf \<and> length (bits bf') = length (bits bf)
       \<and> (\<forall>i<length (bits bf). bits bf ! i \<longrightarrow> bits bf' ! i)"
proof (induction ops arbitrary: bf)
  case Nil
  then show ?case by simp
next
  case (Cons op ops)
  from Cons.prems obtain bf1 where s: "step sum256 op bf = Inr bf1"
    and r: "run sum256 ops bf1 = Inr bf'"
    by (auto split: sum.splits)
  from Cons.prems have "op \<noteq> OpReset" "OpReset \<notin> set ops" by auto
  with step_keeps [OF s] Cons.IH [OF r] show ?case by simp
qed

lemma count_set_all_false: "count_set (replicate n False) c = c"
  by (induction n) simp_all

lemma mod_index_in_range: "(mm :: uint) \<noteq> 0 \<Longrightarrow> unat (v mod mm) < unat mm"
  by (simp add: word_greater_zero_iff word_mod_less_divisor flip: word_less_nat_alt)

lemma count_set_count:
  "count_set bs c = c + of_nat (length (filter (\<lambda>b. b) bs))"
  by (induction bs arbitrary: c) simp_all

lemma bitsSet_le_length:
  assumes "length (bits bf) = unat (m bf)"
  shows "unat (bitsSet (Stats bf)) \<le> unat (m bf)"
proof -
  let ?n = "length (filter (\<lambda>b. b) (bits bf))"
  have le: "?n \<le> unat (m bf)"
    using assms length_filter_le [of "\<lambda>b. b" "bits bf"] by simp
  have "unat (m bf) < 2 ^ 64"
    using unsigned_less [of "m bf"] by simp
  with le have "unat (of_nat ?n :: go_int) = ?n"
    by (intro of_nat_inverse [OF refl]) simp
  with le show ?thesis
    by (simp add: Stats_def count_set_count)
qed

lemma step_items:
  assumes "step sum256 op bf = Inr bf'" and "op \<noteq> OpReset"
  shows "items bf' = items bf + (if is_add op then 1 else 0)"
proof (cases op)
  case (OpAdd item)
  with assms have "Add sum256 bf item = Inr bf'" by simp
  from Add_Inr [OF this] OpAdd show ?thesis by auto
next
  case (OpContains item)
  with assms show ?thesis by (auto split: sum.splits)
next
  case OpStats
  with assms show ?thesis by simp
next
  case OpReset
  with assms show ?thesis by simp
qed

lemma run_items:
  "run sum256 ops bf = Inr bf' \<Longrightarrow> OpReset \<notin> set ops \<Longrightarrow>
     items bf' = items bf + of_nat (length (filter is_add ops))"
proof (induction ops arbitrary: bf)
  case Nil
  then show ?case by simp
next
  case (Cons op ops)
  from Cons.prems obtain bf1 where s: "step sum256 op bf = Inr bf1"
    and r: "run sum256 ops bf1 = Inr bf'"
    by (auto split: sum.splits)
  from Cons.prems have nr: "op \<noteq> OpReset" "OpReset \<notin> set ops" by auto
  from step_items [OF s nr(1)] Cons.IH [OF r nr(2)] show ?case
    by (simp add: algebra_simps)
qed

lemma sint_plus_nat:
  fixes a :: go_int
  assumes "sint a + int n < 2 ^ 63"
  shows "sint (a + of_nat n) = sint a + int n"
proof -
  have lo: "- (2 ^ 63) \<le> sint a"
    using sint_ge [of a] by simp
  have "a + of_nat n = word_of_int (sint a + int n)"
    by simp
  then have "sint (a + of_nat n) = signed_take_bit 63 (sint a + int n)"
    by (simp only: sint_sbintrunc') simp
  also have "\<dots> = sint a + int n"
    using lo assms by (intro signed_take_bit_int_eq_self) simp_all
  finally show ?thesis .
qed

lemma sint_succ:
  fixes a :: go_int
  assumes "sint a < 2 ^ 63 - 1"
  shows "sint (a + 1) = sint a + 1"
  using sint_plus_nat [of a 1] assms by simp

lemma step_shape:
  assumes "step sum256 op bf = Inr bf'" and "length (bits bf) = unat (m bf)"
  shows "length (bits bf') = unat (m bf') \<and> m bf' = m bf \<and> k bf' = k bf"
proof (cases "op = OpReset")
  case True
  with assms have "Reset bf = Inr bf'" by simp
  from Reset_Inr [OF this] show ?thesis by simp
next
  case False
  from step_keeps [OF assms(1) False] assms(2) show ?thesis by simp
qed

lemma run_shape:
  "run sum256 ops bf = Inr bf' \<Longrightarrow> length (bits bf) = unat (m bf) \<Longrightarrow>
     length (bits bf') = unat (m bf') \<and> m bf' = m bf \<and> k bf' = k bf"
proof (induction ops arbitrary: bf)
  case Nil
  then show ?case by simp
next
  case (Cons op ops)
  from Cons.prems obtain bf1 where s: "step sum256 op bf = Inr bf1"
    and r: "run sum256 ops bf1 = Inr bf'"
    by (auto split: sum.splits)
  from step_shape [OF s Cons.prems(2)] have
    "length (bits bf1) = unat (m bf1)" and "m bf1 = m bf" and "k bf1 = k bf"
    by simp_all
  with Cons.IH [OF r] show ?case by simp
qed

lemma NewBloomFilter_Inr:
  "NewBloomFilter m_of k_of expectedItems falsePositiveRate = Inr bf \<Longrightarrow>
     bits bf = replicate (unat (m bf)) False \<and> items bf = 0 \<and> unat (m bf) \<le> maxAlloc"
  by (auto simp: NewBloomFilter_def make_slice_def Let_def split: if_splits)

lemma step_cleared:
  assumes "step sum256 op bf = Inr bf'" and "\<not> is_add op"
    and "bits bf = replicate (unat (m bf)) False" and "items bf = 0"
  shows "bits bf' = replicate (unat (m bf')) False \<and> items bf' = 0 \<and> m bf' = m bf \<and> k bf' = k bf"
proof (cases op)
  case (OpAdd item)
  with assms show ?thesis by simp
next
  case (OpContains item)
  with assms show ?thesis by (auto split: sum.splits)
next
  case OpStats
  with assms show ?thesis by simp
next
  case OpReset
  with assms have "Reset bf = Inr bf'" by simp
  from Reset_Inr [OF this] show ?thesis by simp
qed

lemma run_cleared:
  "run sum256 ops bf = Inr bf' \<Longrightarrow> filter is_add ops = [] \<Longrightarrow>
   bits bf = replicate (unat (m bf)) False \<Longrightarrow> items bf = 0 \<Longrightarrow>
     bits bf' = replicate (unat (m bf')) False \<and> items bf' = 0 \<and> m bf' = m bf \<and> k bf' = k bf"
proof (induction ops arbitrary: bf)
  case Nil
  then show ?case by simp
next
  case (Cons op ops)
  from Cons.prems(1) obtain bf1 where s: "step sum256 op bf = Inr bf1"
    and r: "run sum256 ops bf1 = Inr bf'"
    by (auto split: sum.splits)
  from Cons.prems(2) have na: "\<not> is_add op" "filter is_add ops = []"
    by (simp_all split: if_splits)
  from step_cleared [OF s na(1) Cons.prems(3) Cons.prems(4)] have
    c: "bits bf1 = replicate (unat (m bf1)) False" "items bf1 = 0"
    and mk: "m bf1 = m bf" "k bf1 = k bf"
    by simp_all
  from Cons.IH [OF r na(2) c] mk show ?case by simp
qed

text \<open>
  On a filter whose bit array has length \<open>m\<close>, with \<open>m\<close> not zero and \<open>k\<close> indices within
  the allocation limit of \<^verbatim>\<open>make\<close>, and a digest of at least eight bytes, \<open>Add\<close> and
  \<open>Contains\<close> complete.
\<close>

lemma set_bits_replicate:
  "unat v < length bs \<Longrightarrow>
     set_bits bs (replicate n v) = Inr (if n = 0 then bs else bs[unat v := True])"
proof (induction n arbitrary: bs)
  case 0
  then show ?case by simp
next
  case (Suc n)
  then have "set_bits (bs[unat v := True]) (replicate n v)
      = Inr (if n = 0 then bs[unat v := True] else bs[unat v := True, unat v := True])"
    by simp
  with Suc.prems show ?case by simp
qed

lemma all_set_replicate:
  "unat v < length bs \<Longrightarrow> all_set bs (replicate n v) = Inr (n = 0 \<or> bs ! unat v)"
  by (induction n) simp_all

lemma Add_completes:
  assumes "length (bits bf) = unat (m bf)" and "m bf \<noteq> 0"
    and "unat (k bf) * 8 \<le> maxAlloc" and "8 \<le> length (sum256 item)"
  shows "\<exists>bf'. Add sum256 bf item = Inr bf'"
proof -
  let ?v = "be64 (take 8 (sum256 item)) mod m bf"
  have g: "getHashValues sum256 bf item = Inr (replicate (unat (k bf)) ?v)"
    using assms by (cases "k bf = 0") (simp_all add: getHashValues_eq)
  have "unat ?v < length (bits bf)"
    using assms(1,2) by (simp add: mod_index_in_range)
  then show ?thesis
    by (simp add: Add_def g set_bits_replicate)
qed

lemma Contains_completes:
  assumes "length (bits bf) = unat (m bf)" and "m bf \<noteq> 0"
    and "unat (k bf) * 8 \<le> maxAlloc" and "8 \<le> length (sum256 item)"
  shows "\<exists>b. Contains sum256 bf item = Inr b"
proof -
  let ?v = "be64 (take 8 (sum256 item)) mod m bf"
  have g: "getHashValues sum256 bf item = Inr (replicate (unat (k bf)) ?v)"
    using assms by (cases "k bf = 0") (simp_all add: getHashValues_eq)
  have "unat ?v < length (bits bf)"
    using assms(1,2) by (simp add: mod_index_in_range)
  then show ?thesis
    by (simp add: Contains_def g all_set_replicate)
qed

section \<open>Evaluation on the sample data\<close>

lemma be64_alpha: "be64 (take 8 sha256_alpha) = 10291840798112322974"
  by (simp add: be64_def sha256_alpha_def)

lemma be64_beta: "be64 (take 8 sha256_beta) = 17604118938335660265"
  by (simp add: be64_def sha256_beta_def)

lemma length_sha256_alpha: "length sha256_alpha = 32"
  by (simp add: sha256_alpha_def)

lemma length_sha256_beta: "length sha256_beta = 32"
  by (simp add: sha256_beta_def)

lemma replicate_2: "replicate 2 x = [x, x]"
  by (simp add: numeral_eq_Suc)

lemma replicate_7: "replicate 7 x = [x, x, x, x, x, x, x]"
  by (simp add: numeral_eq_Suc)

lemma hashes_alpha_small:
  "m bf = 2 \<Longrightarrow> k bf = 2 \<Longrightarrow> getHashValues sum256_sample bf ''alpha'' = Inr [0, 0]"
  by (simp add: getHashValues_eq maxAlloc_def sum256_sample_def be64_alpha length_sha256_alpha
      replicate_2)

lemma hashes_beta_small:
  "m bf = 2 \<Longrightarrow> k bf = 2 \<Longrightarrow> getHashValues sum256_sample bf ''beta'' = Inr [1, 1]"
  by (simp add: getHashValues_eq maxAlloc_def sum256_sample_def be64_beta length_sha256_beta
      replicate_2)

section \<open>The claims\<close>

text \<open>
  C1. No false negatives. If \<open>Add(x)\<close> has completed, and the calls that follow it
  (any number of \<open>Add\<close>, \<open>Contains\<close> and \<open>Stats\<close> calls, on any items) complete and
  include no \<open>Reset\<close>, then \<open>Contains(x)\<close> returns true. This holds from every filter
  value and for every digest function.
\<close>

theorem no_false_negatives:
  assumes add: "Add sum256 bf item = Inr bf1"
    and run: "run sum256 ops bf1 = Inr bf2"
    and noreset: "OpReset \<notin> set ops"
  shows "Contains sum256 bf2 item = Inr True"
proof -
  from Add_Inr [OF add] obtain hs where
    g: "getHashValues sum256 bf item = Inr hs"
    and sb: "set_bits (bits bf) hs = Inr (bits bf1)"
    and mk: "m bf1 = m bf" "k bf1 = k bf"
    by blast
  from set_bits_props [OF sb] have
    len1: "length (bits bf1) = length (bits bf)"
    and set1: "\<forall>h\<in>set hs. unat h < length (bits bf) \<and> bits bf1 ! unat h"
    by simp_all
  from run_keeps [OF run noreset] have
    mk2: "m bf2 = m bf1" "k bf2 = k bf1"
    and len2: "length (bits bf2) = length (bits bf1)"
    and mono: "\<forall>i<length (bits bf1). bits bf1 ! i \<longrightarrow> bits bf2 ! i"
    by simp_all
  have "getHashValues sum256 bf2 item = Inr hs"
    using g mk mk2 getHashValues_frame [of bf2 bf sum256 item] by simp
  moreover have "\<forall>h\<in>set hs. unat h < length (bits bf2) \<and> bits bf2 ! unat h"
    using set1 len1 len2 mono by simp
  ultimately show ?thesis
    by (simp add: Contains_def all_set_True)
qed

text \<open>
  An instance on the two-bit filter: \<open>Add(alpha)\<close>, then \<open>Contains(beta)\<close>, \<open>Stats\<close>
  and a second \<open>Add(alpha)\<close>, after which \<open>Contains(alpha)\<close> is true.
\<close>

theorem no_false_negatives_witness:
  "Add sum256_sample small_filter ''alpha'' = Inr \<lparr>m = 2, k = 2, bits = [True, False], items = 1\<rparr>
   \<and> run sum256_sample [OpContains ''beta'', OpStats, OpAdd ''alpha'']
         \<lparr>m = 2, k = 2, bits = [True, False], items = 1\<rparr>
       = Inr \<lparr>m = 2, k = 2, bits = [True, False], items = 2\<rparr>
   \<and> OpReset \<notin> set [OpContains ''beta'', OpStats, OpAdd ''alpha'']
   \<and> Contains sum256_sample \<lparr>m = 2, k = 2, bits = [True, False], items = 2\<rparr> ''alpha'' = Inr True"
proof -
  have a: "Add sum256_sample small_filter ''alpha''
      = Inr \<lparr>m = 2, k = 2, bits = [True, False], items = 1\<rparr>"
    by (simp add: Add_def small_filter_def hashes_alpha_small)
  have r: "run sum256_sample [OpContains ''beta'', OpStats, OpAdd ''alpha'']
         \<lparr>m = 2, k = 2, bits = [True, False], items = 1\<rparr>
       = Inr \<lparr>m = 2, k = 2, bits = [True, False], items = 2\<rparr>"
    by (simp add: Add_def Contains_def hashes_alpha_small hashes_beta_small)
  have n: "OpReset \<notin> set [OpContains ''beta'', OpStats, OpAdd ''alpha'']"
    by simp
  from no_false_negatives [OF a r n] a r n show ?thesis
    by simp
qed

text \<open>
  C2. The claim: slot \<open>i\<close> of the index sequence is \<open>(h1 + i * h2) mod m\<close> for two
  integers \<open>h1\<close> and \<open>h2\<close> split from the digest. The source's comment on the loop body says
  that each hash function uses a different part of the hash, but \<^verbatim>\<open>Uint64\<close> reads only the
  first eight bytes of the slice it is given and the slot byte is appended after them.
  On the program's own filter the item \<^verbatim>\<open>alpha\<close> gets the index 42791 seven times, where
  the two-hash combination of the two halves of its digest gives seven different
  indices.
\<close>

theorem getHashValues_alpha_not_two_hash:
  "getHashValues sum256_sample globalBloomFilter ''alpha''
     = Inr [42791, 42791, 42791, 42791, 42791, 42791, 42791]
   \<and> spec_two_hash_indices (sum256_sample ''alpha'') 7 95851
     = [58276, 6121, 49817, 93513, 41358, 85054, 32899]"
proof
  show "getHashValues sum256_sample globalBloomFilter ''alpha''
     = Inr [42791, 42791, 42791, 42791, 42791, 42791, 42791]"
    by (simp add: getHashValues_eq maxAlloc_def globalBloomFilter_def sum256_sample_def
        be64_alpha length_sha256_alpha replicate_7)
  show "spec_two_hash_indices (sum256_sample ''alpha'') 7 95851
     = [58276, 6121, 49817, 93513, 41358, 85054, 32899]"
    by (simp add: spec_two_hash_indices_def be_nat_def sum256_sample_def sha256_alpha_def upt_rec)
qed

text \<open>
  C3. All \<open>k\<close> indices of one item are the same value, the big-endian reading of the
  first eight digest bytes modulo \<open>m\<close>: the slot byte that \<^verbatim>\<open>append\<close> writes (into the
  digest buffer itself, at position 8) lies outside the eight bytes that \<^verbatim>\<open>Uint64\<close>
  reads. First conjunct: whenever the \<^verbatim>\<open>make\<close> of the result slice succeeds, on a digest
  of at least eight bytes and with \<open>m\<close> not zero, \<open>getHashValues\<close> returns, and returns \<open>k\<close>
  copies of that value. Second conjunct: whenever it returns, any two positions \<open>i\<close> and
  \<open>j\<close> below \<open>k\<close> hold that value.
\<close>

theorem getHashValues_all_equal:
  "(\<forall>result. make_slice 8 (k bf) (0 :: uint) = Inr result \<and> 8 \<le> length (sum256 item)
        \<and> m bf \<noteq> 0 \<longrightarrow>
      getHashValues sum256 bf item
        = Inr (replicate (unat (k bf)) (be64 (take 8 (sum256 item)) mod m bf)))
   \<and> (\<forall>hs i j. getHashValues sum256 bf item = Inr hs \<and> i < unat (k bf) \<and> j < unat (k bf) \<longrightarrow>
         hs ! i = hs ! j \<and> hs ! i = be64 (take 8 (sum256 item)) mod m bf)"
proof (intro conjI allI impI)
  fix result :: "uint list"
  assume a: "make_slice 8 (k bf) 0 = Inr result \<and> 8 \<le> length (sum256 item) \<and> m bf \<noteq> 0"
  then have "unat (k bf) * 8 \<le> maxAlloc"
    using make_slice_Inr [of 8 "k bf" 0 result] by simp
  with a show "getHashValues sum256 bf item
        = Inr (replicate (unat (k bf)) (be64 (take 8 (sum256 item)) mod m bf))"
    by (cases "k bf = 0") (simp_all add: getHashValues_eq)
next
  fix hs i j
  assume h: "getHashValues sum256 bf item = Inr hs \<and> i < unat (k bf) \<and> j < unat (k bf)"
  then have "k bf \<noteq> 0" by auto
  with h have hs: "hs = replicate (unat (k bf)) (be64 (take 8 (sum256 item)) mod m bf)"
    by (auto simp: getHashValues_eq split: if_splits)
  from h show "hs ! i = hs ! j" by (simp add: hs)
  from h show "hs ! i = be64 (take 8 (sum256 item)) mod m bf" by (simp add: hs)
qed

text \<open>
  An instance: the program's filter and the item \<^verbatim>\<open>alpha\<close>, positions 0 and 6.
\<close>

theorem getHashValues_all_equal_witness:
  "make_slice 8 (k globalBloomFilter) (0 :: uint) = Inr [0, 0, 0, 0, 0, 0, 0]
   \<and> 8 \<le> length (sum256_sample ''alpha'')
   \<and> m globalBloomFilter \<noteq> 0
   \<and> getHashValues sum256_sample globalBloomFilter ''alpha''
       = Inr [42791, 42791, 42791, 42791, 42791, 42791, 42791]
   \<and> (0::nat) < unat (k globalBloomFilter) \<and> (6::nat) < unat (k globalBloomFilter)
   \<and> [42791, 42791, 42791, 42791, 42791, 42791, 42791 :: uint] ! 0
       = [42791, 42791, 42791, 42791, 42791, 42791, 42791] ! 6
   \<and> [42791, 42791, 42791, 42791, 42791, 42791, 42791 :: uint] ! 0
       = be64 (take 8 (sum256_sample ''alpha'')) mod m globalBloomFilter"
proof -
  have mk: "make_slice 8 (k globalBloomFilter) (0 :: uint) = Inr [0, 0, 0, 0, 0, 0, 0]"
    by (simp add: make_slice_def maxAlloc_def globalBloomFilter_def replicate_7)
  have pre: "8 \<le> length (sum256_sample ''alpha'') \<and> m globalBloomFilter \<noteq> 0"
    by (simp add: globalBloomFilter_def sum256_sample_def length_sha256_alpha)
  have v: "be64 (take 8 (sum256_sample ''alpha'')) mod m globalBloomFilter = 42791"
    by (simp add: globalBloomFilter_def sum256_sample_def be64_alpha)
  have u: "unat (k globalBloomFilter) = 7"
    by (simp add: globalBloomFilter_def)
  from getHashValues_all_equal [of globalBloomFilter sum256_sample "''alpha''"] mk pre
  have g: "getHashValues sum256_sample globalBloomFilter ''alpha''
      = Inr [42791, 42791, 42791, 42791, 42791, 42791, 42791]"
    by (simp add: v u replicate_7)
  from getHashValues_all_equal [of globalBloomFilter sum256_sample "''alpha''"] g
  have "[42791, 42791, 42791, 42791, 42791, 42791, 42791 :: uint] ! 0
       = [42791, 42791, 42791, 42791, 42791, 42791, 42791] ! 6"
    by simp
  with mk pre v u g show ?thesis by simp
qed

text \<open>
  C4. The claim: construction with \<open>expectedItems \<le> 0\<close> or a rate outside \<open>(0,1)\<close>
  fails with \<open>InvalidParameters\<close>. It does not. For \<open>expectedItems = 1000\<close> and
  \<open>falsePositiveRate = 1.0\<close>, \<^verbatim>\<open>math.Log(1)\<close> is 0, so the formulas of lines 25 and 26 both
  evaluate to 0, and the call returns a filter with no bits and no hash functions.
\<close>

theorem NewBloomFilter_accepts_rate_one:
  "NewBloomFilter (\<lambda>expectedItems falsePositiveRate. 0) (\<lambda>expectedItems mm. 0) 1000 (1 :: real)
     = Inr \<lparr>m = 0, k = 0, bits = [], items = 0\<rparr>"
  by (simp add: NewBloomFilter_def make_slice_def maxAlloc_def)

text \<open>
  C4, as the code has it. \<open>NewBloomFilter\<close> checks nothing and never reports
  \<open>InvalidParameters\<close>. For every pair of arguments, valid or not: whenever the \<^verbatim>\<open>make\<close>
  of the bit array succeeds, it returns the filter with the \<open>m\<close> and \<open>k\<close> that the
  float64 formulas yield, \<open>m\<close> bits that are all false and a counter of 0; and when
  \<^verbatim>\<open>make\<close> panics (\<open>m\<close> above the allocation limit), so does the call.
\<close>

theorem NewBloomFilter_unchecked:
  "NewBloomFilter m_of k_of expectedItems falsePositiveRate \<noteq> Inl InvalidParameters
   \<and> (\<forall>bs. make_slice 1 (m_of expectedItems falsePositiveRate) False = Inr bs \<longrightarrow>
        NewBloomFilter m_of k_of expectedItems falsePositiveRate
          = Inr \<lparr>m = m_of expectedItems falsePositiveRate,
                 k = k_of expectedItems (m_of expectedItems falsePositiveRate),
                 bits = replicate (unat (m_of expectedItems falsePositiveRate)) False,
                 items = 0\<rparr>)
   \<and> (\<forall>e. make_slice 1 (m_of expectedItems falsePositiveRate) False = Inl e \<longrightarrow>
        NewBloomFilter m_of k_of expectedItems falsePositiveRate = Inl LenOutOfRange)"
proof (intro conjI allI impI)
  show "NewBloomFilter m_of k_of expectedItems falsePositiveRate \<noteq> Inl InvalidParameters"
    by (simp add: NewBloomFilter_def make_slice_def Let_def)
next
  fix bs
  assume ok: "make_slice 1 (m_of expectedItems falsePositiveRate) False = Inr bs"
  from make_slice_Inr [OF ok]
  have "bs = replicate (unat (m_of expectedItems falsePositiveRate)) False"
    by simp
  with ok show "NewBloomFilter m_of k_of expectedItems falsePositiveRate
          = Inr \<lparr>m = m_of expectedItems falsePositiveRate,
                 k = k_of expectedItems (m_of expectedItems falsePositiveRate),
                 bits = replicate (unat (m_of expectedItems falsePositiveRate)) False,
                 items = 0\<rparr>"
    by (simp add: NewBloomFilter_def Let_def)
next
  fix e
  assume "make_slice 1 (m_of expectedItems falsePositiveRate) False = Inl e"
  then show "NewBloomFilter m_of k_of expectedItems falsePositiveRate = Inl LenOutOfRange"
    by (auto simp: NewBloomFilter_def Let_def make_slice_def split: if_splits)
qed

text \<open>
  Two instances: \<^verbatim>\<open>NewBloomFilter(1, 0.5)\<close>, for which both formulas give 2, and a size
  of \<open>2^50\<close> bits, above the allocation limit.
\<close>

theorem NewBloomFilter_unchecked_witness:
  "make_slice 1 (2 :: uint) False = Inr [False, False]
   \<and> NewBloomFilter (\<lambda>expectedItems falsePositiveRate. 2) (\<lambda>expectedItems mm. 2) 1 (1 / 2 :: real)
       = Inr small_filter
   \<and> NewBloomFilter (\<lambda>expectedItems falsePositiveRate. 2) (\<lambda>expectedItems mm. 2) 1 (1 / 2 :: real)
       \<noteq> Inl InvalidParameters
   \<and> make_slice 1 (1125899906842624 :: uint) False = Inl LenOutOfRange
   \<and> NewBloomFilter (\<lambda>expectedItems falsePositiveRate. 1125899906842624)
         (\<lambda>expectedItems mm. 7) 140737488355328 (1 / 100 :: real)
       = Inl LenOutOfRange"
proof -
  have a: "make_slice 1 (2 :: uint) False = Inr [False, False]"
    by (simp add: make_slice_def maxAlloc_def replicate_2)
  have b: "make_slice 1 (1125899906842624 :: uint) False = Inl LenOutOfRange"
    by (simp add: make_slice_def maxAlloc_def)
  from a b
    NewBloomFilter_unchecked
      [of "\<lambda>expectedItems falsePositiveRate. 2" "\<lambda>expectedItems mm. 2" 1 "1 / 2 :: real"]
    NewBloomFilter_unchecked
      [of "\<lambda>expectedItems falsePositiveRate. 1125899906842624" "\<lambda>expectedItems mm. 7"
        140737488355328 "1 / 100 :: real"]
  show ?thesis
    by (simp add: small_filter_def replicate_2)
qed

text \<open>
  C5. The claim: after \<open>Reset\<close>, \<open>Contains(x)\<close> returns false for every item not added
  since. On the filter that \<^verbatim>\<open>NewBloomFilter(1000, 1.0)\<close> returns, with \<open>m = 0\<close> and \<open>k = 0\<close>,
  the loop of \<open>Contains\<close> has no index to test and the call returns true, after \<open>Reset\<close>
  as before it, for an item that was never added.
\<close>

theorem Reset_then_Contains_true:
  "Reset \<lparr>m = 0, k = 0, bits = [], items = 0\<rparr> = Inr \<lparr>m = 0, k = 0, bits = [], items = 0\<rparr>
   \<and> Contains sum256_sample \<lparr>m = 0, k = 0, bits = [], items = 0\<rparr> ''alpha'' = Inr True"
  by (simp add: Reset_def Contains_def make_slice_def maxAlloc_def getHashValues_eq)

text \<open>
  C5, as the code has it. Take a filter with \<open>m \<ge> 1\<close> and \<open>k \<ge> 1\<close>, on which the \<^verbatim>\<open>make\<close>
  of \<open>k\<close> indices succeeds, and a digest of at least eight bytes. After \<open>Reset\<close>, and
  after any further calls among which there is no \<open>Add\<close>, \<open>Contains(x)\<close> returns false
  for every item \<open>x\<close>, and the snapshot reports \<open>itemsAdded = 0\<close> and \<open>bitsSet = 0\<close>.
\<close>

theorem Reset_clears:
  assumes reset: "Reset bf = Inr bf1"
    and run: "run sum256 ops bf1 = Inr bf2"
    and noadd: "filter is_add ops = []"
    and kpos: "k bf \<noteq> 0"
    and kmake: "make_slice 8 (k bf) (0 :: uint) = Inr result"
    and mpos: "m bf \<noteq> 0"
    and digest: "8 \<le> length (sum256 item)"
  shows "Contains sum256 bf2 item = Inr False
     \<and> itemsAdded (Stats bf2) = 0 \<and> bitsSet (Stats bf2) = 0"
proof -
  from Reset_Inr [OF reset] have
    b1: "bits bf1 = replicate (unat (m bf1)) False" and i1: "items bf1 = 0"
    and mk1: "m bf1 = m bf" "k bf1 = k bf"
    by simp_all
  from run_cleared [OF run noadd b1 i1] mk1 have
    b: "bits bf2 = replicate (unat (m bf)) False" and i: "items bf2 = 0"
    and mk: "m bf2 = m bf" "k bf2 = k bf"
    by simp_all
  from make_slice_Inr [OF kmake] have klen: "unat (k bf) * 8 \<le> maxAlloc"
    by simp
  let ?v = "be64 (take 8 (sum256 item)) mod m bf"
  from kpos obtain n where n: "unat (k bf) = Suc n"
    by (cases "unat (k bf)") (simp_all add: unat_eq_zero)
  have g: "getHashValues sum256 bf2 item = Inr (replicate (unat (k bf)) ?v)"
    using kpos klen mpos digest mk by (simp add: getHashValues_eq)
  have "unat ?v < unat (m bf)"
    using mpos by (rule mod_index_in_range)
  then have "all_set (bits bf2) (replicate (unat (k bf)) ?v) = Inr False"
    by (simp add: b n)
  with g have "Contains sum256 bf2 item = Inr False"
    by (simp add: Contains_def)
  moreover have "itemsAdded (Stats bf2) = 0"
    by (simp add: Stats_def i)
  moreover have "bitsSet (Stats bf2) = 0"
    by (simp add: Stats_def b count_set_all_false)
  ultimately show ?thesis by simp
qed

text \<open>
  An instance: the two-bit filter with one bit set is reset, then asked for \<^verbatim>\<open>alpha\<close>.
\<close>

theorem Reset_clears_witness:
  "Reset \<lparr>m = 2, k = 2, bits = [True, False], items = 1\<rparr> = Inr small_filter
   \<and> run sum256_sample [OpContains ''alpha'', OpStats] small_filter = Inr small_filter
   \<and> filter is_add [OpContains ''alpha'', OpStats] = []
   \<and> k \<lparr>m = 2, k = 2, bits = [True, False], items = 1\<rparr> \<noteq> 0
   \<and> make_slice 8 (k \<lparr>m = 2, k = 2, bits = [True, False], items = 1\<rparr>) (0 :: uint) = Inr [0, 0]
   \<and> m \<lparr>m = 2, k = 2, bits = [True, False], items = 1\<rparr> \<noteq> 0
   \<and> 8 \<le> length (sum256_sample ''alpha'')
   \<and> Contains sum256_sample small_filter ''alpha'' = Inr False
   \<and> itemsAdded (Stats small_filter) = 0 \<and> bitsSet (Stats small_filter) = 0"
proof -
  have r: "Reset \<lparr>m = 2, k = 2, bits = [True, False], items = 1\<rparr> = Inr small_filter"
    by (simp add: Reset_def make_slice_def maxAlloc_def small_filter_def replicate_2)
  have c: "Contains sum256_sample small_filter ''alpha'' = Inr False"
    by (simp add: Contains_def small_filter_def hashes_alpha_small)
  have o: "run sum256_sample [OpContains ''alpha'', OpStats] small_filter = Inr small_filter"
    by (simp add: c)
  have na: "filter is_add [OpContains ''alpha'', OpStats] = []"
    by simp
  have d: "8 \<le> length (sum256_sample ''alpha'')"
    by (simp add: sum256_sample_def length_sha256_alpha)
  have k1: "k \<lparr>m = 2, k = 2, bits = [True, False], items = 1\<rparr> \<noteq> 0"
    and m1: "m \<lparr>m = 2, k = 2, bits = [True, False], items = 1\<rparr> \<noteq> 0"
    by simp_all
  have k2: "make_slice 8 (k \<lparr>m = 2, k = 2, bits = [True, False], items = 1\<rparr>) (0 :: uint)
      = Inr [0, 0]"
    by (simp add: make_slice_def maxAlloc_def replicate_2)
  from Reset_clears [of _ _ sum256_sample _ _ _ "''alpha''", OF r o na k1 k2 m1 d] r o d k2
  show ?thesis by simp
qed

text \<open>
  C6. The claim: each of two calls of \<open>Add(x)\<close> increments \<open>itemsAdded\<close> by 1, from every
  filter state. The counter is an \<^verbatim>\<open>int\<close>: of two calls that start at \<open>2^63 - 2\<close>, the
  first takes it to \<open>2^63 - 1\<close> and the second to \<open>-2^63\<close>.
\<close>

theorem Add_twice_counter_wraps:
  "Add sum256_sample \<lparr>m = 2, k = 2, bits = [False, False], items = 9223372036854775806\<rparr> ''beta''
     = Inr \<lparr>m = 2, k = 2, bits = [False, True], items = 9223372036854775807\<rparr>
   \<and> Add sum256_sample \<lparr>m = 2, k = 2, bits = [False, True], items = 9223372036854775807\<rparr> ''beta''
     = Inr \<lparr>m = 2, k = 2, bits = [False, True], items = - 9223372036854775808\<rparr>
   \<and> sint (itemsAdded (Stats \<lparr>m = 2, k = 2, bits = [False, True], items = 9223372036854775807\<rparr>))
       = 9223372036854775807
   \<and> sint (itemsAdded (Stats \<lparr>m = 2, k = 2, bits = [False, True], items = - 9223372036854775808\<rparr>))
       = - 9223372036854775808"
  by (simp add: Add_def hashes_beta_small Stats_def)

text \<open>
  C6, as the code has it. From any filter value on which \<open>Add(x)\<close> completes, a second
  \<open>Add(x)\<close> completes too and leaves the bit array, and so the number of set bits, as the
  first call left it. Each of the two calls adds one to \<open>itemsAdded\<close> in the counter's
  64-bit arithmetic; read as an integer, the counter goes up by 1 in a call that it
  enters below \<open>2^63 - 1\<close>.
\<close>

theorem Add_twice:
  assumes first: "Add sum256 bf item = Inr bf1"
  shows "\<exists>bf2. Add sum256 bf1 item = Inr bf2
     \<and> bits bf2 = bits bf1
     \<and> bitsSet (Stats bf2) = bitsSet (Stats bf1)
     \<and> itemsAdded (Stats bf1) = itemsAdded (Stats bf) + 1
     \<and> itemsAdded (Stats bf2) = itemsAdded (Stats bf1) + 1
     \<and> (sint (itemsAdded (Stats bf)) < 2 ^ 63 - 1 \<longrightarrow>
          sint (itemsAdded (Stats bf1)) = sint (itemsAdded (Stats bf)) + 1)
     \<and> (sint (itemsAdded (Stats bf1)) < 2 ^ 63 - 1 \<longrightarrow>
          sint (itemsAdded (Stats bf2)) = sint (itemsAdded (Stats bf1)) + 1)"
proof -
  from Add_Inr [OF first] obtain hs where
    g: "getHashValues sum256 bf item = Inr hs"
    and sb: "set_bits (bits bf) hs = Inr (bits bf1)"
    and mk: "m bf1 = m bf" "k bf1 = k bf"
    and it: "items bf1 = items bf + 1"
    by blast
  from set_bits_props [OF sb] have
    "\<forall>h\<in>set hs. unat h < length (bits bf1) \<and> bits bf1 ! unat h"
    by simp
  then have again: "set_bits (bits bf1) hs = Inr (bits bf1)"
    by (rule set_bits_fixed)
  have g1: "getHashValues sum256 bf1 item = Inr hs"
    using g mk getHashValues_frame [of bf1 bf sum256 item] by simp
  let ?bf2 = "bf1\<lparr>bits := bits bf1, items := items bf1 + 1\<rparr>"
  have "Add sum256 bf1 item = Inr ?bf2"
    by (simp add: Add_def g1 again)
  moreover have "bits ?bf2 = bits bf1" by simp
  moreover have "bitsSet (Stats ?bf2) = bitsSet (Stats bf1)"
    by (simp add: Stats_def)
  moreover have "itemsAdded (Stats bf1) = itemsAdded (Stats bf) + 1"
    by (simp add: Stats_def it)
  moreover have "itemsAdded (Stats ?bf2) = itemsAdded (Stats bf1) + 1"
    by (simp add: Stats_def)
  moreover have "sint (itemsAdded (Stats bf1)) = sint (itemsAdded (Stats bf)) + 1"
    if "sint (itemsAdded (Stats bf)) < 2 ^ 63 - 1"
    using that by (simp add: Stats_def it sint_succ)
  moreover have "sint (itemsAdded (Stats ?bf2)) = sint (itemsAdded (Stats bf1)) + 1"
    if "sint (itemsAdded (Stats bf1)) < 2 ^ 63 - 1"
    using that by (simp add: Stats_def sint_succ)
  ultimately show ?thesis by blast
qed

text \<open>
  An instance: \<^verbatim>\<open>beta\<close> added twice to the two-bit filter.
\<close>

theorem Add_twice_witness:
  "Add sum256_sample small_filter ''beta'' = Inr \<lparr>m = 2, k = 2, bits = [False, True], items = 1\<rparr>
   \<and> Add sum256_sample \<lparr>m = 2, k = 2, bits = [False, True], items = 1\<rparr> ''beta''
       = Inr \<lparr>m = 2, k = 2, bits = [False, True], items = 2\<rparr>
   \<and> bitsSet (Stats \<lparr>m = 2, k = 2, bits = [False, True], items = 2\<rparr>) = 1
   \<and> bitsSet (Stats \<lparr>m = 2, k = 2, bits = [False, True], items = 1\<rparr>) = 1
   \<and> sint (itemsAdded (Stats small_filter)) < 2 ^ 63 - 1
   \<and> sint (itemsAdded (Stats \<lparr>m = 2, k = 2, bits = [False, True], items = 1\<rparr>)) < 2 ^ 63 - 1
   \<and> sint (itemsAdded (Stats \<lparr>m = 2, k = 2, bits = [False, True], items = 1\<rparr>))
       = sint (itemsAdded (Stats small_filter)) + 1
   \<and> sint (itemsAdded (Stats \<lparr>m = 2, k = 2, bits = [False, True], items = 2\<rparr>))
       = sint (itemsAdded (Stats \<lparr>m = 2, k = 2, bits = [False, True], items = 1\<rparr>)) + 1"
proof -
  have a: "Add sum256_sample small_filter ''beta''
      = Inr \<lparr>m = 2, k = 2, bits = [False, True], items = 1\<rparr>"
    by (simp add: Add_def small_filter_def hashes_beta_small)
  have e: "Add sum256_sample \<lparr>m = 2, k = 2, bits = [False, True], items = 1\<rparr> ''beta''
       = Inr \<lparr>m = 2, k = 2, bits = [False, True], items = 2\<rparr>"
    by (simp add: Add_def hashes_beta_small)
  from Add_twice [OF a] a e show ?thesis
    by (simp add: Stats_def small_filter_def)
qed

text \<open>
  C7. The claim: after \<open>n\<close> calls of \<open>Add\<close>, \<open>itemsAdded\<close> is its value before plus \<open>n\<close>,
  from every starting state. The counter is an \<^verbatim>\<open>int\<close>: from \<open>2^63 - 1\<close> one more \<open>Add\<close>
  takes it to \<open>-2^63\<close>, not to \<open>2^63\<close>.
\<close>

theorem Add_counter_wraps:
  "Add sum256_sample \<lparr>m = 2, k = 2, bits = [False, False], items = 9223372036854775807\<rparr> ''alpha''
     = Inr \<lparr>m = 2, k = 2, bits = [True, False], items = - 9223372036854775808\<rparr>
   \<and> sint (itemsAdded (Stats \<lparr>m = 2, k = 2, bits = [False, False], items = 9223372036854775807\<rparr>))
       = 9223372036854775807
   \<and> sint (itemsAdded (Stats \<lparr>m = 2, k = 2, bits = [True, False], items = - 9223372036854775808\<rparr>))
       = - 9223372036854775808"
  by (simp add: Add_def hashes_alpha_small Stats_def)

text \<open>
  C7, as the code has it. After a run of calls with no \<open>Reset\<close>, \<open>n\<close> of which are calls
  of \<open>Add\<close> (on any items, duplicates or not), \<open>itemsAdded\<close> is its value before plus \<open>n\<close>
  in the counter's 64-bit arithmetic; read as integers, it is the value before plus
  \<open>n\<close> whenever that sum is at most \<open>2^63 - 1\<close>.
\<close>

theorem items_after_adds:
  assumes "run sum256 ops bf = Inr bf'" and "OpReset \<notin> set ops"
  shows "itemsAdded (Stats bf') = itemsAdded (Stats bf) + of_nat (length (filter is_add ops))
     \<and> (sint (itemsAdded (Stats bf)) + int (length (filter is_add ops)) < 2 ^ 63 \<longrightarrow>
          sint (itemsAdded (Stats bf'))
            = sint (itemsAdded (Stats bf)) + int (length (filter is_add ops)))"
proof -
  have eq: "items bf' = items bf + of_nat (length (filter is_add ops))"
    using assms by (rule run_items)
  have "sint (items bf') = sint (items bf) + int (length (filter is_add ops))"
    if "sint (items bf) + int (length (filter is_add ops)) < 2 ^ 63"
    using that by (simp add: eq sint_plus_nat)
  with eq show ?thesis by (simp add: Stats_def)
qed

text \<open>
  An instance: three calls of \<open>Add\<close>, two of them for the same item, and one \<open>Contains\<close>.
\<close>

theorem items_after_adds_witness:
  "run sum256_sample [OpAdd ''alpha'', OpContains ''beta'', OpAdd ''alpha'', OpAdd ''beta''] small_filter
     = Inr \<lparr>m = 2, k = 2, bits = [True, True], items = 3\<rparr>
   \<and> OpReset \<notin> set [OpAdd ''alpha'', OpContains ''beta'', OpAdd ''alpha'', OpAdd ''beta'']
   \<and> length (filter is_add [OpAdd ''alpha'', OpContains ''beta'', OpAdd ''alpha'', OpAdd ''beta'']) = 3
   \<and> sint (itemsAdded (Stats small_filter)) + 3 < 2 ^ 63
   \<and> itemsAdded (Stats \<lparr>m = 2, k = 2, bits = [True, True], items = 3\<rparr>)
       = itemsAdded (Stats small_filter) + 3
   \<and> sint (itemsAdded (Stats \<lparr>m = 2, k = 2, bits = [True, True], items = 3\<rparr>))
       = sint (itemsAdded (Stats small_filter)) + 3"
proof -
  have r: "run sum256_sample [OpAdd ''alpha'', OpContains ''beta'', OpAdd ''alpha'', OpAdd ''beta'']
      small_filter = Inr \<lparr>m = 2, k = 2, bits = [True, True], items = 3\<rparr>"
    by (simp add: small_filter_def Add_def Contains_def hashes_alpha_small hashes_beta_small)
  have n: "OpReset \<notin> set [OpAdd ''alpha'', OpContains ''beta'', OpAdd ''alpha'', OpAdd ''beta'']"
    by simp
  have c: "length (filter is_add [OpAdd ''alpha'', OpContains ''beta'', OpAdd ''alpha'', OpAdd ''beta'']) = 3"
    by simp
  have b: "sint (itemsAdded (Stats small_filter)) + 3 < 2 ^ 63"
    by (simp add: Stats_def small_filter_def)
  from items_after_adds [OF r n] r n c b show ?thesis
    by (simp add: Stats_def small_filter_def)
qed

text \<open>
  C9. State shape. In every state that a run of \<open>Add\<close>, \<open>Contains\<close>, \<open>Stats\<close> and \<open>Reset\<close>
  calls reaches from a constructed filter, the bit array has length \<open>m\<close> (and \<open>m\<close> and \<open>k\<close>
  are those of construction), and a further call other than \<open>Reset\<close> keeps the length and
  leaves every set bit set.
\<close>

theorem state_shape:
  assumes new: "NewBloomFilter m_of k_of expectedItems falsePositiveRate = Inr bf0"
    and run: "run sum256 ops bf0 = Inr bf"
  shows "length (bits bf) = unat (m bf) \<and> m bf = m bf0 \<and> k bf = k bf0
     \<and> (\<forall>op bf'. op \<noteq> OpReset \<and> step sum256 op bf = Inr bf' \<longrightarrow>
           length (bits bf') = length (bits bf)
           \<and> (\<forall>i<length (bits bf). bits bf ! i \<longrightarrow> bits bf' ! i))"
proof -
  from NewBloomFilter_Inr [OF new] have "length (bits bf0) = unat (m bf0)"
    by simp
  from run_shape [OF run this] have shape: "length (bits bf) = unat (m bf)"
    and same: "m bf = m bf0" "k bf = k bf0"
    by simp_all
  have "length (bits bf') = length (bits bf) \<and> (\<forall>i<length (bits bf). bits bf ! i \<longrightarrow> bits bf' ! i)"
    if "op \<noteq> OpReset \<and> step sum256 op bf = Inr bf'" for op bf'
    using that step_keeps [of sum256 op bf bf'] by simp
  with shape same show ?thesis by blast
qed

text \<open>
  An instance: the filter of \<^verbatim>\<open>NewBloomFilter(1, 0.5)\<close> after \<open>Add(alpha)\<close>, \<open>Stats\<close>, \<open>Reset\<close>
  and \<open>Add(beta)\<close>; a further \<open>Add(alpha)\<close> keeps bit 1 set.
\<close>

theorem state_shape_witness:
  "NewBloomFilter (\<lambda>expectedItems falsePositiveRate. 2) (\<lambda>expectedItems mm. 2) 1 (1 / 2 :: real)
     = Inr small_filter
   \<and> run sum256_sample [OpAdd ''alpha'', OpStats, OpReset, OpAdd ''beta''] small_filter
       = Inr \<lparr>m = 2, k = 2, bits = [False, True], items = 1\<rparr>
   \<and> length (bits \<lparr>m = 2, k = 2, bits = [False, True], items = 1\<rparr>)
       = unat (m \<lparr>m = 2, k = 2, bits = [False, True], items = 1\<rparr>)
   \<and> OpAdd ''alpha'' \<noteq> OpReset
   \<and> step sum256_sample (OpAdd ''alpha'') \<lparr>m = 2, k = 2, bits = [False, True], items = 1\<rparr>
       = Inr \<lparr>m = 2, k = 2, bits = [True, True], items = 2\<rparr>
   \<and> (1::nat) < length (bits \<lparr>m = 2, k = 2, bits = [False, True], items = 1\<rparr>)
   \<and> bits \<lparr>m = 2, k = 2, bits = [False, True], items = 1\<rparr> ! 1
   \<and> bits \<lparr>m = 2, k = 2, bits = [True, True], items = 2\<rparr> ! 1"
proof -
  have c: "NewBloomFilter (\<lambda>expectedItems falsePositiveRate. 2) (\<lambda>expectedItems mm. 2) 1 (1 / 2 :: real)
     = Inr small_filter"
    by (simp add: NewBloomFilter_def make_slice_def maxAlloc_def small_filter_def replicate_2)
  have r: "run sum256_sample [OpAdd ''alpha'', OpStats, OpReset, OpAdd ''beta''] small_filter
       = Inr \<lparr>m = 2, k = 2, bits = [False, True], items = 1\<rparr>"
    by (simp add: small_filter_def Add_def Reset_def make_slice_def maxAlloc_def replicate_2
        hashes_alpha_small hashes_beta_small)
  have s: "step sum256_sample (OpAdd ''alpha'') \<lparr>m = 2, k = 2, bits = [False, True], items = 1\<rparr>
       = Inr \<lparr>m = 2, k = 2, bits = [True, True], items = 2\<rparr>"
    by (simp add: Add_def hashes_alpha_small)
  from state_shape [OF c r] c r s show ?thesis
    by simp
qed

end
